theory Spec2Isabelle
  imports Complex_Main
begin

section \<open>Python values, errors and list access\<close>

text \<open>
  The program is ALG-BINARY (\<^verbatim>\<open>ALG-BINARY_loese_Instanz.py\<close>): a greedy local search that
  maximises the Nash social welfare of an allocation of items to agents with binary
  preferences. The module globals \<^verbatim>\<open>agent_quantity\<close> and \<^verbatim>\<open>item_quantity\<close> are the
  explicit parameters \<open>n\<close> and \<open>m\<close> of every function that reads them. Agents and items are
  indices, hence natural numbers; the counts of items per agent are Python integers,
  since \<^verbatim>\<open>fast_nsw\<close> decrements them. Every exception the code can raise is a value
  \<open>Inl e\<close>; printing is left out.
\<close>

datatype error = IndexError | TypeError | ZeroDivisionError | ValueError | OverflowError

definition nth_res :: "'a list \<Rightarrow> nat \<Rightarrow> error + 'a" where
  "nth_res xs i = (if i < length xs then Inr (xs ! i) else Inl IndexError)"

subsection \<open>Floating-point numbers\<close>

text \<open>
  A Python float is an IEEE double: a finite number, an infinity or a NaN. A negative
  integer raised to a fractional power is a Python complex number; it stays complex under
  multiplication and cannot be compared by order, so one constructor stands for all of
  them.
\<close>

datatype pynum = PyFloat real | PyInf | PyNegInf | PyNaN | PyComplex

text \<open>
  The program uses three float operations whose results depend on rounding:
  \<^verbatim>\<open>x ** (1 / agent_quantity)\<close> for an integer \<open>x\<close> (\<open>fl_root\<close>, which can raise), the product
  \<^verbatim>\<open>a * b\<close> (\<open>fl_times\<close>) and \<^verbatim>\<open>log\<close> (\<open>fl_log\<close>). They are parameters of the model: a theorem about
  \<open>fa\<close> holds for every float arithmetic, the rounded one of the machine included.
\<close>

record float_arith =
  fl_root :: "int \<Rightarrow> nat \<Rightarrow> error + pynum"
  fl_times :: "pynum \<Rightarrow> pynum \<Rightarrow> pynum"
  fl_log :: "int \<Rightarrow> pynum"

text \<open>Comparison is exact on doubles. \<^verbatim>\<open>a > b\<close> is a TypeError as soon as one side is
  complex, and false as soon as one side is a NaN.\<close>

fun py_gt :: "pynum \<Rightarrow> pynum \<Rightarrow> error + bool" where
  "py_gt PyComplex b = Inl TypeError"
| "py_gt a PyComplex = Inl TypeError"
| "py_gt PyNaN b = Inr False"
| "py_gt a PyNaN = Inr False"
| "py_gt (PyFloat a) (PyFloat b) = Inr (b < a)"
| "py_gt (PyFloat a) PyInf = Inr False"
| "py_gt (PyFloat a) PyNegInf = Inr True"
| "py_gt PyInf PyInf = Inr False"
| "py_gt PyInf b = Inr True"
| "py_gt PyNegInf b = Inr False"

text \<open>\<^verbatim>\<open>round(x)\<close> of a float: a tie goes to the even neighbour; a NaN is a ValueError and
  an infinity an OverflowError.\<close>

fun py_round :: "pynum \<Rightarrow> error + int" where
  "py_round (PyFloat x) =
     Inr (if x - of_int \<lfloor>x\<rfloor> = 1 / 2
          then (if even \<lfloor>x\<rfloor> then \<lfloor>x\<rfloor> else \<lfloor>x\<rfloor> + 1)
          else \<lfloor>x + 1 / 2\<rfloor>)"
| "py_round PyInf = Inl OverflowError"
| "py_round PyNegInf = Inl OverflowError"
| "py_round PyNaN = Inl ValueError"
| "py_round PyComplex = Inl TypeError"

subsection \<open>Doubles without rounding\<close>







section \<open>Welfare evaluator\<close>

text \<open>The loop of \<^verbatim>\<open>split_nsw\<close>: \<open>counter\<close>, \<open>product\<close> (an exact Python integer) and
  \<open>rooted_product\<close>; every twentieth value the product is rooted and reset. The first
  factor of \<open>rooted_product\<close> is the integer 1, which is the float 1.0 in a product with a
  float.\<close>

fun split_loop ::
  "float_arith \<Rightarrow> nat \<Rightarrow> int list \<Rightarrow> nat \<Rightarrow> int \<Rightarrow> pynum \<Rightarrow> error + pynum" where
  "split_loop fa n [] counter product rooted_product =
     (case fl_root fa product n of
        Inl e \<Rightarrow> Inl e
      | Inr rooted \<Rightarrow> Inr (fl_times fa rooted_product rooted))"
| "split_loop fa n (v # vs) counter product rooted_product =
     (if (counter + 1) mod 20 = 0
      then
        (case fl_root fa (product * v) n of
           Inl e \<Rightarrow> Inl e
         | Inr rooted \<Rightarrow> split_loop fa n vs (counter + 1) 1 (fl_times fa rooted_product rooted))
      else split_loop fa n vs (counter + 1) (product * v) rooted_product)"

text \<open>Every run evaluates \<^verbatim>\<open>1 / agent_quantity\<close> before it raises anything to that power
  (at the latest after the loop): with \<open>n = 0\<close> the call ends in a ZeroDivisionError.\<close>

definition split_nsw :: "float_arith \<Rightarrow> nat \<Rightarrow> int list \<Rightarrow> error + pynum" where
  "split_nsw fa n agent_values =
     (if n = 0 then Inl ZeroDivisionError
      else split_loop fa n agent_values 0 1 (PyFloat 1))"

fun valuations_loop :: "nat list \<Rightarrow> nat list \<Rightarrow> int list \<Rightarrow> error + int list" where
  "valuations_loop allocation [] agent_values = Inr agent_values"
| "valuations_loop allocation (item # items) agent_values =
     (case nth_res allocation item of
        Inl e \<Rightarrow> Inl e
      | Inr a \<Rightarrow>
          (case nth_res agent_values a of
             Inl e \<Rightarrow> Inl e
           | Inr c \<Rightarrow> valuations_loop allocation items (agent_values[a := c + 1])))"

definition calculate_agent_valuations :: "nat \<Rightarrow> nat \<Rightarrow> nat list \<Rightarrow> error + int list" where
  "calculate_agent_valuations n m allocation =
     valuations_loop allocation [0..<m] (replicate n 0)"

text \<open>\<^verbatim>\<open>fast_nsw\<close>: the receiver \<^verbatim>\<open>path[0]\<close> gains one item, the giver
  \<^verbatim>\<open>path[len(path) - 1]\<close> loses one. On the empty path \<^verbatim>\<open>path[0]\<close> raises.\<close>

definition hypothetical_values :: "int list \<Rightarrow> nat list \<Rightarrow> error + int list" where
  "hypothetical_values agent_values path =
     (if path = [] then Inl IndexError
      else
        (case nth_res agent_values (hd path) of
           Inl e \<Rightarrow> Inl e
         | Inr c \<Rightarrow>
             (let agent_values1 = agent_values[hd path := c + 1] in
              (case nth_res agent_values1 (last path) of
                 Inl e \<Rightarrow> Inl e
               | Inr d \<Rightarrow> Inr (agent_values1[last path := d - 1])))))"

definition fast_nsw ::
  "float_arith \<Rightarrow> nat \<Rightarrow> nat \<Rightarrow> nat list \<Rightarrow> nat list \<Rightarrow> error + pynum" where
  "fast_nsw fa n m path allocation =
     (case calculate_agent_valuations n m allocation of
        Inl e \<Rightarrow> Inl e
      | Inr agent_values \<Rightarrow>
          (case hypothetical_values agent_values path of
             Inl e \<Rightarrow> Inl e
           | Inr agent_values' \<Rightarrow> split_nsw fa n agent_values'))"

section \<open>Augmenting path selector\<close>

text \<open>The two nested loops of \<^verbatim>\<open>find_path\<close> over the APSP matrix. The loop state is
  \<open>(best_path, current_maximum)\<close>; \<open>current_maximum\<close> starts as the integer 0.\<close>

fun find_path_paths ::
  "float_arith \<Rightarrow> nat \<Rightarrow> nat \<Rightarrow> nat list \<Rightarrow> nat list list \<Rightarrow> nat list \<times> pynum
     \<Rightarrow> error + nat list \<times> pynum" where
  "find_path_paths fa n m allocation [] st = Inr st"
| "find_path_paths fa n m allocation (path # paths) st =
     (if path \<noteq> []
      then
        (case fast_nsw fa n m path allocation of
           Inl e \<Rightarrow> Inl e
         | Inr possible_maximum \<Rightarrow>
             (case py_gt possible_maximum (snd st) of
                Inl e \<Rightarrow> Inl e
              | Inr better \<Rightarrow>
                  find_path_paths fa n m allocation paths
                    (if better then (path, possible_maximum) else st)))
      else find_path_paths fa n m allocation paths st)"

fun find_path_nodes ::
  "float_arith \<Rightarrow> nat \<Rightarrow> nat \<Rightarrow> nat list \<Rightarrow> nat list list list \<Rightarrow> nat list \<times> pynum
     \<Rightarrow> error + nat list \<times> pynum" where
  "find_path_nodes fa n m allocation [] st = Inr st"
| "find_path_nodes fa n m allocation (node # nodes) st =
     (case find_path_paths fa n m allocation node st of
        Inl e \<Rightarrow> Inl e
      | Inr st' \<Rightarrow> find_path_nodes fa n m allocation nodes st')"

definition find_path ::
  "float_arith \<Rightarrow> nat \<Rightarrow> nat \<Rightarrow> nat list list list \<Rightarrow> nat list \<Rightarrow> error + nat list" where
  "find_path fa n m apsp_matrix allocation =
     (case calculate_agent_valuations n m allocation of
        Inl e \<Rightarrow> Inl e
      | Inr agent_values \<Rightarrow>
          (case split_nsw fa n agent_values of
             Inl e \<Rightarrow> Inl e
           | Inr current_nsw \<Rightarrow>
               (case find_path_nodes fa n m allocation apsp_matrix ([], PyFloat 0) of
                  Inl e \<Rightarrow> Inl e
                | Inr (best_path, current_maximum) \<Rightarrow>
                    (case py_gt current_maximum current_nsw of
                       Inl e \<Rightarrow> Inl e
                     | Inr better \<Rightarrow> Inr (if better then best_path else [])))))"

section \<open>Envy graph builder\<close>

text \<open>\<^verbatim>\<open>envy_list\<close>: the items agent \<open>x\<close> likes and does not own. Python's \<^verbatim>\<open>and\<close> reads
  \<^verbatim>\<open>allocation[item]\<close> only when \<^verbatim>\<open>preferences[x][item]\<close> is true.\<close>

fun envy_list_loop ::
  "bool list list \<Rightarrow> nat \<Rightarrow> nat list \<Rightarrow> nat list \<Rightarrow> nat list \<Rightarrow> error + nat list" where
  "envy_list_loop preferences x allocation [] envied_items = Inr envied_items"
| "envy_list_loop preferences x allocation (item # items) envied_items =
     (case nth_res preferences x of
        Inl e \<Rightarrow> Inl e
      | Inr row \<Rightarrow>
          (case nth_res row item of
             Inl e \<Rightarrow> Inl e
           | Inr likes \<Rightarrow>
               (if likes
                then
                  (case nth_res allocation item of
                     Inl e \<Rightarrow> Inl e
                   | Inr owner \<Rightarrow>
                       envy_list_loop preferences x allocation items
                         (if owner \<noteq> x then envied_items @ [item] else envied_items))
                else envy_list_loop preferences x allocation items envied_items)))"

definition envy_list :: "nat \<Rightarrow> bool list list \<Rightarrow> nat \<Rightarrow> nat list \<Rightarrow> error + nat list" where
  "envy_list m preferences x allocation = envy_list_loop preferences x allocation [0..<m] []"

fun map_res :: "('a \<Rightarrow> error + 'b) \<Rightarrow> 'a list \<Rightarrow> error + 'b list" where
  "map_res f [] = Inr []"
| "map_res f (x # xs) =
     (case f x of
        Inl e \<Rightarrow> Inl e
      | Inr y \<Rightarrow> (case map_res f xs of Inl e \<Rightarrow> Inl e | Inr ys \<Rightarrow> Inr (y # ys)))"

text \<open>\<^verbatim>\<open>envied_agents\<close>: every envied item is replaced by its owner.\<close>

definition envied_agents :: "nat list list \<Rightarrow> nat list \<Rightarrow> error + nat list list" where
  "envied_agents envied_items allocation =
     map_res (\<lambda>items. map_res (nth_res allocation) items) envied_items"

definition calculate_item_envy_relations ::
  "nat \<Rightarrow> nat \<Rightarrow> bool list list \<Rightarrow> nat list \<Rightarrow> error + nat list list" where
  "calculate_item_envy_relations n m preferences allocation =
     (case map_res (\<lambda>i. envy_list m preferences i allocation) [0..<n] of
        Inl e \<Rightarrow> Inl e
      | Inr big_envy_item_list \<Rightarrow> envied_agents big_envy_item_list allocation)"

text \<open>\<^verbatim>\<open>list(dict.fromkeys(xs))\<close> keeps the first occurrence of every element.\<close>

fun dict_fromkeys :: "nat list \<Rightarrow> nat list" where
  "dict_fromkeys [] = []"
| "dict_fromkeys (x # xs) = x # dict_fromkeys (filter (\<lambda>y. y \<noteq> x) xs)"

text \<open>\<^verbatim>\<open>shorten_envy_list\<close> starts from \<^verbatim>\<open>[0] * agent_quantity\<close> and overwrites entry \<open>i\<close>
  for every \<open>i\<close> below the length of its argument. An entry that was not overwritten is
  still the integer 0, here \<open>Unfilled\<close>.\<close>

datatype adjacency = Unfilled | Adj "nat list"

fun shorten_loop :: "nat list list \<Rightarrow> nat \<Rightarrow> adjacency list \<Rightarrow> error + adjacency list" where
  "shorten_loop [] i shortened_envy_relation = Inr shortened_envy_relation"
| "shorten_loop (edges # rest) i shortened_envy_relation =
     (if i < length shortened_envy_relation
      then shorten_loop rest (i + 1)
             (shortened_envy_relation[i := Adj (dict_fromkeys (sort edges))])
      else Inl IndexError)"

definition shorten_envy_list :: "nat \<Rightarrow> nat list list \<Rightarrow> error + adjacency list" where
  "shorten_envy_list n agent_edges_list = shorten_loop agent_edges_list 0 (replicate n Unfilled)"

section \<open>APSP solver\<close>

text \<open>The state of the \<^verbatim>\<open>while\<close> loop of \<^verbatim>\<open>bfs\<close>. A distance is \<open>None\<close> for the string
  \<^verbatim>\<open>"inf"\<close>. The three arrays are created with length \<^verbatim>\<open>agent_quantity\<close> and never
  resized, so one range check (the read of \<^verbatim>\<open>visited\<close>) covers the writes to all three.\<close>

record bfs_state =
  queue :: "nat list"
  visited :: "bool list"
  distances :: "nat option list"
  shortest_paths_to_node :: "nat list list"

text \<open>The \<^verbatim>\<open>for\<close> loop over the neighbours of \<open>node\<close>. Adding 1 to \<^verbatim>\<open>"inf"\<close> is a TypeError.\<close>

fun bfs_neighbours :: "nat \<Rightarrow> nat list \<Rightarrow> bfs_state \<Rightarrow> error + bfs_state" where
  "bfs_neighbours node [] s = Inr s"
| "bfs_neighbours node (v # vs) s =
     (case nth_res (visited s) v of
        Inl e \<Rightarrow> Inl e
      | Inr seen \<Rightarrow>
          (if seen then bfs_neighbours node vs s
           else
             (case nth_res (distances s) node of
                Inl e \<Rightarrow> Inl e
              | Inr None \<Rightarrow> Inl TypeError
              | Inr (Some d) \<Rightarrow>
                  (case nth_res (shortest_paths_to_node s) node of
                     Inl e \<Rightarrow> Inl e
                   | Inr p \<Rightarrow>
                       bfs_neighbours node vs
                         (s\<lparr>visited := (visited s)[v := True],
                            distances := (distances s)[v := Some (d + 1)],
                            shortest_paths_to_node := (shortest_paths_to_node s)[v := p @ [node]],
                            queue := queue s @ [v]\<rparr>)))))"

definition unvisited :: "bfs_state \<Rightarrow> nat" where
  "unvisited s = length (filter (\<lambda>b. \<not> b) (visited s))"

lemma unvisited_mark:
  assumes "v < length vis" and "\<not> vis ! v"
  shows "Suc (length (filter (\<lambda>b. \<not> b) (vis[v := True]))) = length (filter (\<lambda>b. \<not> b) vis)"
proof -
  have split: "vis = take v vis @ vis ! v # drop (Suc v) vis"
    using assms(1) by (simp add: id_take_nth_drop)
  have upd: "vis[v := True] = take v vis @ True # drop (Suc v) vis"
    using assms(1) by (simp add: upd_conv_take_nth_drop)
  have "length (filter (\<lambda>b. \<not> b) vis) =
        length (filter (\<lambda>b. \<not> b) (take v vis @ vis ! v # drop (Suc v) vis))"
    using split by simp
  then show ?thesis
    using assms(2) by (simp add: upd)
qed

lemma bfs_neighbours_measure:
  "bfs_neighbours node vs s = Inr s' \<Longrightarrow>
   unvisited s' + length (queue s') = unvisited s + length (queue s) \<and> unvisited s' \<le> unvisited s"
proof (induction vs arbitrary: s)
  case Nil
  then show ?case by simp
next
  case (Cons v vs)
  show ?case
  proof (cases "v < length (visited s)")
    case False
    with Cons.prems show ?thesis by (simp add: nth_res_def)
  next
    case inrange: True
    show ?thesis
    proof (cases "visited s ! v")
      case True
      with Cons inrange show ?thesis by (simp add: nth_res_def)
    next
      case False
      from Cons.prems inrange False obtain d p where
        rec: "bfs_neighbours node vs
                (s\<lparr>visited := (visited s)[v := True],
                   distances := (distances s)[v := Some (d + 1)],
                   shortest_paths_to_node := (shortest_paths_to_node s)[v := p @ [node]],
                   queue := queue s @ [v]\<rparr>) = Inr s'"
        by (auto simp: nth_res_def split: if_splits option.splits sum.splits)
      from Cons.IH [OF rec] unvisited_mark [OF inrange False]
      show ?thesis by (simp add: unvisited_def)
    qed
  qed
qed

text \<open>The \<^verbatim>\<open>while len(queue) > 0\<close> loop. Reading the adjacency entry of \<open>node\<close> raises an
  IndexError beyond the end of the relation, and \<^verbatim>\<open>len(0)\<close> on an unfilled entry is a
  TypeError. The loop terminates: every turn either marks a node or shortens the queue.\<close>

function bfs_while :: "adjacency list \<Rightarrow> bfs_state \<Rightarrow> error + bfs_state" where
  "bfs_while shortened_envy_relation s =
     (case queue s of
        [] \<Rightarrow> Inr s
      | node # rest \<Rightarrow>
          (case nth_res shortened_envy_relation node of
             Inl e \<Rightarrow> Inl e
           | Inr Unfilled \<Rightarrow> Inl TypeError
           | Inr (Adj neighbours) \<Rightarrow>
               (case bfs_neighbours node neighbours (s\<lparr>queue := rest\<rparr>) of
                  Inl e \<Rightarrow> Inl e
                | Inr s' \<Rightarrow> bfs_while shortened_envy_relation s')))"
  by pat_completeness auto
termination
proof (relation "measure (\<lambda>(g, s). 2 * unvisited s + length (queue s))", goal_cases)
  case 1
  show ?case by simp
next
  case (2 g s node rest entry neighbours s')
  from bfs_neighbours_measure [OF 2(4)] 2(1)
  show ?case by (simp add: unvisited_def)
qed

text \<open>The closing \<^verbatim>\<open>for\<close> loop: the target is appended to every path but the one of the
  start node, and the path of a node that was never reached is emptied.\<close>

fun bfs_clean :: "nat \<Rightarrow> nat list \<Rightarrow> nat option list \<Rightarrow> nat list list \<Rightarrow> nat list list" where
  "bfs_clean start_node [] ds paths = paths"
| "bfs_clean start_node (i # rest) ds paths =
     (if i \<noteq> start_node
      then bfs_clean start_node rest ds
             (paths[i := (if ds ! i = None then [] else paths ! i @ [i])])
      else bfs_clean start_node rest ds paths)"

definition bfs_init :: "nat \<Rightarrow> nat \<Rightarrow> bfs_state" where
  "bfs_init n start_node =
     \<lparr>queue = [start_node],
      visited = (replicate n False)[start_node := True],
      distances = (replicate n None)[start_node := Some 0],
      shortest_paths_to_node = replicate n []\<rparr>"

definition bfs :: "nat \<Rightarrow> adjacency list \<Rightarrow> nat \<Rightarrow> error + nat list list" where
  "bfs n shortened_envy_relation start_node =
     (if start_node < n
      then
        (case bfs_while shortened_envy_relation (bfs_init n start_node) of
           Inl e \<Rightarrow> Inl e
         | Inr s \<Rightarrow> Inr (bfs_clean start_node [0..<n] (distances s) (shortest_paths_to_node s)))
      else Inl IndexError)"

definition solve_APSP :: "nat \<Rightarrow> adjacency list \<Rightarrow> error + nat list list list" where
  "solve_APSP n shortened_envy_relation = map_res (bfs n shortened_envy_relation) [0..<n]"

section \<open>Reallocation executor\<close>

text \<open>\<^verbatim>\<open>find_possession\<close>: one list of items per agent, filled in the order of the items.\<close>

fun possession_loop :: "nat list \<Rightarrow> nat list \<Rightarrow> nat list list \<Rightarrow> error + nat list list" where
  "possession_loop allocation [] possessions = Inr possessions"
| "possession_loop allocation (item # items) possessions =
     (case nth_res allocation item of
        Inl e \<Rightarrow> Inl e
      | Inr a \<Rightarrow>
          (case nth_res possessions a of
             Inl e \<Rightarrow> Inl e
           | Inr owned \<Rightarrow> possession_loop allocation items (possessions[a := owned @ [item]])))"

definition find_possession :: "nat \<Rightarrow> nat list \<Rightarrow> error + nat list list" where
  "find_possession n allocation =
     possession_loop allocation [0..<length allocation] (replicate n [])"

text \<open>The inner loop of \<^verbatim>\<open>pick_items\<close> over the items of the giver: \<open>Some\<close> item at the
  \<^verbatim>\<open>break\<close>, \<open>None\<close> when the loop runs to its end without finding one.\<close>

fun pick_giveable :: "bool list list \<Rightarrow> nat \<Rightarrow> nat list \<Rightarrow> error + nat option" where
  "pick_giveable preferences receiver [] = Inr None"
| "pick_giveable preferences receiver (giveable_item # items) =
     (case nth_res preferences receiver of
        Inl e \<Rightarrow> Inl e
      | Inr row \<Rightarrow>
          (case nth_res row giveable_item of
             Inl e \<Rightarrow> Inl e
           | Inr likes \<Rightarrow>
               (if likes then Inr (Some giveable_item)
                else pick_giveable preferences receiver items)))"

text \<open>The outer loop, \<open>agent\<close> running over \<^verbatim>\<open>range(0, len(best_path) - 1)\<close>, so that both
  \<^verbatim>\<open>best_path[agent]\<close> and \<^verbatim>\<open>best_path[agent + 1]\<close> exist. A hop for which the inner loop
  finds nothing appends nothing.\<close>

fun pick_items_loop ::
  "nat list \<Rightarrow> nat list list \<Rightarrow> bool list list \<Rightarrow> nat list \<Rightarrow> nat list \<Rightarrow> error + nat list" where
  "pick_items_loop best_path possessions preferences [] swapping_item_list = Inr swapping_item_list"
| "pick_items_loop best_path possessions preferences (agent # agents) swapping_item_list =
     (case nth_res possessions (best_path ! (agent + 1)) of
        Inl e \<Rightarrow> Inl e
      | Inr giveable \<Rightarrow>
          (case pick_giveable preferences (best_path ! agent) giveable of
             Inl e \<Rightarrow> Inl e
           | Inr None \<Rightarrow>
               pick_items_loop best_path possessions preferences agents swapping_item_list
           | Inr (Some item) \<Rightarrow>
               pick_items_loop best_path possessions preferences agents
                 (swapping_item_list @ [item])))"

definition pick_items ::
  "nat list \<Rightarrow> nat list \<Rightarrow> nat list list \<Rightarrow> bool list list \<Rightarrow> error + nat list" where
  "pick_items best_path changing_allocation possessions preferences =
     pick_items_loop best_path possessions preferences [0..<length best_path - 1] []"

text \<open>\<^verbatim>\<open>execute_swap\<close>: the \<open>k\<close>-th item of the swapping list goes to the \<open>k\<close>-th agent of
  the path. \<open>item\<close> runs over \<^verbatim>\<open>range(0, len(swapping_list))\<close>, so \<^verbatim>\<open>swapping_list[item]\<close>
  exists; \<^verbatim>\<open>best_path[item]\<close> and the write to the allocation can raise.\<close>

fun execute_swap_loop :: "nat list \<Rightarrow> nat list \<Rightarrow> nat list \<Rightarrow> nat list \<Rightarrow> error + nat list" where
  "execute_swap_loop changing_allocation swapping_list best_path [] = Inr changing_allocation"
| "execute_swap_loop changing_allocation swapping_list best_path (item # items) =
     (case nth_res best_path item of
        Inl e \<Rightarrow> Inl e
      | Inr receiver \<Rightarrow>
          (if swapping_list ! item < length changing_allocation
           then execute_swap_loop (changing_allocation[swapping_list ! item := receiver])
                  swapping_list best_path items
           else Inl IndexError))"

definition execute_swap :: "nat list \<Rightarrow> nat list \<Rightarrow> nat list \<Rightarrow> error + nat list" where
  "execute_swap changing_allocation swapping_list best_path =
     execute_swap_loop changing_allocation swapping_list best_path [0..<length swapping_list]"

section \<open>Optimization loop\<close>

text \<open>The first half of the loop body of \<^verbatim>\<open>main\<close>: envy relation, its tidy form, the APSP
  matrix and the best path.\<close>

definition envy_graph :: "nat \<Rightarrow> nat \<Rightarrow> bool list list \<Rightarrow> nat list \<Rightarrow> error + adjacency list" where
  "envy_graph n m preferences allocation =
     (case calculate_item_envy_relations n m preferences allocation of
        Inl e \<Rightarrow> Inl e
      | Inr all_agents_envies \<Rightarrow> shorten_envy_list n all_agents_envies)"

definition select_path ::
  "float_arith \<Rightarrow> nat \<Rightarrow> nat \<Rightarrow> bool list list \<Rightarrow> nat list \<Rightarrow> error + nat list" where
  "select_path fa n m preferences allocation =
     (case envy_graph n m preferences allocation of
        Inl e \<Rightarrow> Inl e
      | Inr shortened_envy_relation \<Rightarrow>
          (case solve_APSP n shortened_envy_relation of
             Inl e \<Rightarrow> Inl e
           | Inr apsp_matrix \<Rightarrow> find_path fa n m apsp_matrix allocation))"

text \<open>The second half: the swapping plan for the best path and the new allocation.\<close>

definition reallocate ::
  "nat \<Rightarrow> bool list list \<Rightarrow> nat list \<Rightarrow> nat list \<Rightarrow> error + nat list \<times> nat list" where
  "reallocate n preferences allocation best_path =
     (case find_possession n allocation of
        Inl e \<Rightarrow> Inl e
      | Inr possessions \<Rightarrow>
          (case pick_items best_path allocation possessions preferences of
             Inl e \<Rightarrow> Inl e
           | Inr swapping_plan \<Rightarrow>
               (case execute_swap allocation swapping_plan best_path of
                  Inl e \<Rightarrow> Inl e
                | Inr allocation' \<Rightarrow> Inr (swapping_plan, allocation'))))"

text \<open>What a run of the loop leaves behind: why it stopped, how many times the loop body
  was entered, the allocation and the list of executed swapping plans.\<close>

datatype stop_reason = CONVERGED | BUDGET_EXHAUSTED

record run_result =
  outcome :: stop_reason
  runs :: nat
  final_allocation :: "nat list"
  global_swapping_list :: "nat list list"

text \<open>The \<^verbatim>\<open>for run in range(0, cap)\<close> loop of \<^verbatim>\<open>main\<close>; \<open>remaining\<close> counts the
  iterations that are left, \<open>run\<close> those that were made.\<close>

fun main_loop ::
  "float_arith \<Rightarrow> nat \<Rightarrow> nat \<Rightarrow> bool list list \<Rightarrow> nat \<Rightarrow> nat \<Rightarrow> nat list \<Rightarrow> nat list list
     \<Rightarrow> error + run_result" where
  "main_loop fa n m preferences 0 run allocation swaps =
     Inr \<lparr>outcome = BUDGET_EXHAUSTED, runs = run, final_allocation = allocation,
          global_swapping_list = swaps\<rparr>"
| "main_loop fa n m preferences (Suc remaining) run allocation swaps =
     (case select_path fa n m preferences allocation of
        Inl e \<Rightarrow> Inl e
      | Inr best_path \<Rightarrow>
          (if best_path = []
           then Inr \<lparr>outcome = CONVERGED, runs = run + 1, final_allocation = allocation,
                     global_swapping_list = swaps\<rparr>
           else
             (case reallocate n preferences allocation best_path of
                Inl e \<Rightarrow> Inl e
              | Inr (swapping_plan, allocation') \<Rightarrow>
                  main_loop fa n m preferences remaining (run + 1) allocation'
                    (swaps @ [swapping_plan]))))"

text \<open>\<^verbatim>\<open>runtime\<close> is the bound of the paper, \<^verbatim>\<open>2 * n * (m + 1) * log(n * m)\<close> with the natural
  logarithm: an exact integer times a float. The integer is far below \<open>2^53\<close> for every
  instance that fits into memory, so it is the same number as a float.\<close>

definition runtime :: "float_arith \<Rightarrow> nat \<Rightarrow> nat \<Rightarrow> pynum" where
  "runtime fa n m =
     fl_times fa (PyFloat (real_of_int (2 * int n * (int m + 1)))) (fl_log fa (int n * int m))"

text \<open>\<^verbatim>\<open>main\<close> from the instance on: the random preferences and the random allocation of
  part one are its arguments here. Part two computes, for printing only, the possessions
  and the envy relation. The loop runs \<^verbatim>\<open>round(runtime(n, m))\<close> times at most; a range up
  to a negative number is empty.\<close>

definition main ::
  "float_arith \<Rightarrow> nat \<Rightarrow> nat \<Rightarrow> bool list list \<Rightarrow> nat list \<Rightarrow> error + run_result" where
  "main fa n m preferences allocation =
     (case find_possession n allocation of
        Inl e \<Rightarrow> Inl e
      | Inr possessions \<Rightarrow>
          (case envy_graph n m preferences allocation of
             Inl e \<Rightarrow> Inl e
           | Inr shortened_envy_relation \<Rightarrow>
               (case py_round (runtime fa n m) of
                  Inl e \<Rightarrow> Inl e
                | Inr cap \<Rightarrow> main_loop fa n m preferences (nat cap) 0 allocation [])))"

section \<open>Well-formed instances\<close>

text \<open>The data model: the preferences are an \<open>n \<times> m\<close> matrix and the allocation maps each of
  the \<open>m\<close> items to one of the \<open>n\<close> agents.\<close>

definition valid_allocation :: "nat \<Rightarrow> nat \<Rightarrow> nat list \<Rightarrow> bool" where
  "valid_allocation n m allocation \<longleftrightarrow> length allocation = m \<and> list_all (\<lambda>a. a < n) allocation"

definition valid_preferences :: "nat \<Rightarrow> nat \<Rightarrow> bool list list \<Rightarrow> bool" where
  "valid_preferences n m preferences \<longleftrightarrow>
     length preferences = n \<and> list_all (\<lambda>row. length row = m) preferences"

text \<open>The items of agent \<open>a\<close>, in index order.\<close>

definition owned_items :: "nat list \<Rightarrow> nat \<Rightarrow> nat list" where
  "owned_items allocation a = filter (\<lambda>i. allocation ! i = a) [0..<length allocation]"

section \<open>Possessions and the reallocation executor keep the allocation total\<close>

lemma nth_res_simps [simp]:
  "i < length xs \<Longrightarrow> nth_res xs i = Inr (xs ! i)"
  "\<not> i < length xs \<Longrightarrow> nth_res xs i = Inl IndexError"
  by (simp_all add: nth_res_def)

lemma possession_loop_filter:
  "\<forall>i \<in> set items. i < length allocation \<and> allocation ! i < length possessions \<Longrightarrow>
   possession_loop allocation items possessions =
     Inr (map (\<lambda>a. possessions ! a @ filter (\<lambda>i. allocation ! i = a) items)
            [0..<length possessions])"
proof (induction items arbitrary: possessions)
  case Nil
  show ?case by (simp add: map_nth)
next
  case (Cons item items)
  let ?a = "allocation ! item"
  let ?p = "possessions[?a := possessions ! ?a @ [item]]"
  have step: "possession_loop allocation (item # items) possessions =
              possession_loop allocation items ?p"
    using Cons.prems by simp
  have "possession_loop allocation items ?p =
        Inr (map (\<lambda>a. ?p ! a @ filter (\<lambda>i. allocation ! i = a) items) [0..<length ?p])"
    using Cons.prems by (intro Cons.IH) simp
  also have "map (\<lambda>a. ?p ! a @ filter (\<lambda>i. allocation ! i = a) items) [0..<length ?p] =
             map (\<lambda>a. possessions ! a @ filter (\<lambda>i. allocation ! i = a) (item # items))
               [0..<length possessions]"
    by (auto simp: nth_list_update)
  finally show ?case using step by simp
qed

lemma find_possession_owned:
  assumes "list_all (\<lambda>a. a < n) allocation"
  shows "find_possession n allocation = Inr (map (owned_items allocation) [0..<n])"
proof -
  have "\<forall>i \<in> set [0..<length allocation].
          i < length allocation \<and> allocation ! i < length (replicate n ([]::nat list))"
    using assms by (simp add: list_all_length)
  from possession_loop_filter [OF this]
  show ?thesis by (simp add: find_possession_def owned_items_def cong: map_cong)
qed

lemma execute_swap_loop_valid:
  "execute_swap_loop allocation swapping_list best_path items = Inr allocation' \<Longrightarrow>
   list_all (\<lambda>a. a < n) allocation \<Longrightarrow> list_all (\<lambda>a. a < n) best_path \<Longrightarrow>
   length allocation' = length allocation \<and> list_all (\<lambda>a. a < n) allocation'"
proof (induction items arbitrary: allocation)
  case Nil
  then show ?case by simp
next
  case (Cons item items)
  from Cons.prems(1) have inpath: "item < length best_path"
    by (cases "item < length best_path") simp_all
  from Cons.prems(1) inpath have inalloc: "swapping_list ! item < length allocation"
    by (simp split: if_splits)
  let ?al = "allocation[swapping_list ! item := best_path ! item]"
  from Cons.prems(1) inpath inalloc
  have rec: "execute_swap_loop ?al swapping_list best_path items = Inr allocation'"
    by simp
  have "best_path ! item < n"
    using Cons.prems(3) inpath by (simp add: list_all_length)
  then have "list_all (\<lambda>a. a < n) ?al"
    using Cons.prems(2) set_update_subset_insert [of allocation "swapping_list ! item" "best_path ! item"]
    by (auto simp: list_all_iff)
  from Cons.IH [OF rec this Cons.prems(3)] show ?case by simp
qed

lemma execute_swap_loop_total:
  "\<forall>k \<in> set items. k < length best_path \<and> swapping_list ! k < length allocation \<Longrightarrow>
   \<exists>allocation'. execute_swap_loop allocation swapping_list best_path items = Inr allocation'"
proof (induction items arbitrary: allocation)
  case Nil
  show ?case by simp
next
  case (Cons item items)
  let ?al = "allocation[swapping_list ! item := best_path ! item]"
  have "\<exists>allocation'. execute_swap_loop ?al swapping_list best_path items = Inr allocation'"
    using Cons.prems by (intro Cons.IH) simp
  then show ?case using Cons.prems by simp
qed

lemma owned_items_partition:
  assumes "valid_allocation n m allocation"
  shows "(\<forall>i < m. \<forall>a < n. i \<in> set (owned_items allocation a) \<longleftrightarrow> allocation ! i = a)"
    and "\<forall>a. distinct (owned_items allocation a) \<and> sorted (owned_items allocation a)
           \<and> set (owned_items allocation a) \<subseteq> {..<m}"
  using assms by (auto simp: owned_items_def valid_allocation_def intro: sorted_wrt_filter)

text \<open>
  Claim C9. The reallocation executor preserves totality and exclusivity of the
  allocation. Let the allocation map each of the \<open>m\<close> items to an agent below \<open>n\<close>, and let
  the path consist of agents below \<open>n\<close>. Whenever \<^verbatim>\<open>execute_swap\<close> returns, the new
  allocation again maps each of the \<open>m\<close> items to an agent below \<open>n\<close>, and the possession
  view computed from it is a partition of the items: \<^verbatim>\<open>find_possession\<close> returns \<open>n\<close>
  duplicate-free lists of items, and every item is in the list of exactly one agent, its
  owner. \<^verbatim>\<open>execute_swap\<close> does return when the swapping list is no longer than the path
  and names items below \<open>m\<close>.
\<close>

theorem execute_swap_keeps_partition:
  assumes "valid_allocation n m allocation"
    and "list_all (\<lambda>a. a < n) best_path"
  shows
    "(\<forall>allocation'. execute_swap allocation swapping_list best_path = Inr allocation' \<longrightarrow>
        valid_allocation n m allocation' \<and>
        (\<exists>possessions. find_possession n allocation' = Inr possessions \<and>
           length possessions = n \<and>
           (\<forall>i < m. \<exists>!a. a < n \<and> i \<in> set (possessions ! a)) \<and>
           (\<forall>i < m. i \<in> set (possessions ! (allocation' ! i))) \<and>
           (\<forall>a < n. distinct (possessions ! a) \<and> set (possessions ! a) \<subseteq> {..<m}))) \<and>
     (length swapping_list \<le> length best_path \<and> list_all (\<lambda>i. i < m) swapping_list \<longrightarrow>
        (\<exists>allocation'. execute_swap allocation swapping_list best_path = Inr allocation'))"
proof (intro conjI allI impI)
  fix allocation'
  assume run: "execute_swap allocation swapping_list best_path = Inr allocation'"
  from assms(1) have len: "length allocation = m" and agents: "list_all (\<lambda>a. a < n) allocation"
    by (simp_all add: valid_allocation_def)
  from execute_swap_loop_valid [OF run [unfolded execute_swap_def] agents assms(2)] len
  show valid: "valid_allocation n m allocation'"
    by (simp add: valid_allocation_def)
  then have agents': "list_all (\<lambda>a. a < n) allocation'" and len': "length allocation' = m"
    by (simp_all add: valid_allocation_def)
  let ?poss = "map (owned_items allocation') [0..<n]"
  have owner: "\<forall>i < m. allocation' ! i < n"
    using agents' len' by (simp add: list_all_length)
  have unique: "\<forall>i < m. \<exists>!a. a < n \<and> i \<in> set (?poss ! a)"
  proof (intro allI impI)
    fix i assume "i < m"
    with owner owned_items_partition(1) [OF valid]
    show "\<exists>!a. a < n \<and> i \<in> set (?poss ! a)"
      by (intro ex1I [of _ "allocation' ! i"]) auto
  qed
  have mine: "\<forall>i < m. i \<in> set (?poss ! (allocation' ! i))"
    using owner owned_items_partition(1) [OF valid] by simp
  have lists: "\<forall>a < n. distinct (?poss ! a) \<and> set (?poss ! a) \<subseteq> {..<m}"
    using owned_items_partition(2) [OF valid] by simp
  show "\<exists>possessions. find_possession n allocation' = Inr possessions \<and>
           length possessions = n \<and>
           (\<forall>i < m. \<exists>!a. a < n \<and> i \<in> set (possessions ! a)) \<and>
           (\<forall>i < m. i \<in> set (possessions ! (allocation' ! i))) \<and>
           (\<forall>a < n. distinct (possessions ! a) \<and> set (possessions ! a) \<subseteq> {..<m})"
    using find_possession_owned [OF agents'] unique mine lists
    by (intro exI [of _ ?poss]) simp
next
  assume ok: "length swapping_list \<le> length best_path \<and> list_all (\<lambda>i. i < m) swapping_list"
  from assms(1) have len: "length allocation = m"
    by (simp add: valid_allocation_def)
  have "\<forall>k \<in> set [0..<length swapping_list].
          k < length best_path \<and> swapping_list ! k < length allocation"
    using ok len by (simp add: list_all_length)
  from execute_swap_loop_total [OF this]
  show "\<exists>allocation'. execute_swap allocation swapping_list best_path = Inr allocation'"
    by (simp add: execute_swap_def)
qed

theorem execute_swap_keeps_partition_witness:
  "valid_allocation 3 3 [0, 0, 1] \<and> list_all (\<lambda>a. a < 3) [2, 0::nat] \<and>
   execute_swap [0, 0, 1] [1] [2, 0] = Inr [0, 2, 1] \<and>
   valid_allocation 3 3 [0, 2, 1] \<and>
   (\<exists>possessions. find_possession 3 [0, 2, 1] = Inr possessions \<and> length possessions = 3)"
proof -
  have h1: "valid_allocation 3 3 [0, 0, 1]"
    by (simp add: valid_allocation_def)
  have h2: "list_all (\<lambda>a. a < 3) [2, 0::nat]"
    by simp
  have run: "execute_swap [0, 0, 1] [1] [2, 0] = Inr [0, 2, 1]"
    by (simp add: execute_swap_def)
  from execute_swap_keeps_partition [OF h1 h2, of "[1]"] run
  have "valid_allocation 3 3 [0, 2, 1] \<and>
        (\<exists>possessions. find_possession 3 [0, 2, 1] = Inr possessions \<and> length possessions = 3)"
    by blast
  with h1 h2 run show ?thesis by blast
qed

section \<open>The envy graph on a well-formed instance\<close>

lemma map_res_all_Inr:
  "\<forall>x \<in> set xs. f x = Inr (g x) \<Longrightarrow> map_res f xs = Inr (map g xs)"
  by (induction xs) simp_all

lemma envy_list_loop_filter:
  assumes "x < length preferences"
    and "\<forall>i \<in> set items. i < length (preferences ! x) \<and> i < length allocation"
  shows "envy_list_loop preferences x allocation items envied_items =
         Inr (envied_items @ filter (\<lambda>i. preferences ! x ! i \<and> allocation ! i \<noteq> x) items)"
  using assms(2)
proof (induction items arbitrary: envied_items)
  case Nil
  show ?case by simp
next
  case (Cons item items)
  then show ?case using assms(1) by simp
qed

text \<open>Closed forms of the builder on a well-formed instance: the items agent \<open>x\<close> envies,
  and the tidy list of their owners.\<close>

definition envied_items_of :: "nat \<Rightarrow> bool list list \<Rightarrow> nat list \<Rightarrow> nat \<Rightarrow> nat list" where
  "envied_items_of m preferences allocation x =
     filter (\<lambda>i. preferences ! x ! i \<and> allocation ! i \<noteq> x) [0..<m]"

definition envied_by :: "nat \<Rightarrow> bool list list \<Rightarrow> nat list \<Rightarrow> nat \<Rightarrow> nat list" where
  "envied_by m preferences allocation x =
     dict_fromkeys (sort (map (\<lambda>i. allocation ! i) (envied_items_of m preferences allocation x)))"

lemma envy_list_closed:
  assumes "valid_preferences n m preferences" and "valid_allocation n m allocation" and "x < n"
  shows "envy_list m preferences x allocation = Inr (envied_items_of m preferences allocation x)"
proof -
  have "x < length preferences"
    using assms by (simp add: valid_preferences_def)
  moreover have "\<forall>i \<in> set [0..<m]. i < length (preferences ! x) \<and> i < length allocation"
    using assms by (simp add: valid_preferences_def valid_allocation_def list_all_length)
  ultimately show ?thesis
    by (simp add: envy_list_def envied_items_of_def envy_list_loop_filter)
qed

lemma calculate_item_envy_relations_closed:
  assumes "valid_preferences n m preferences" and "valid_allocation n m allocation"
  shows "calculate_item_envy_relations n m preferences allocation =
         Inr (map (\<lambda>x. map (\<lambda>i. allocation ! i) (envied_items_of m preferences allocation x)) [0..<n])"
proof -
  have items: "map_res (\<lambda>i. envy_list m preferences i allocation) [0..<n] =
               Inr (map (envied_items_of m preferences allocation) [0..<n])"
    using envy_list_closed [OF assms] by (intro map_res_all_Inr) simp
  have inner: "\<forall>items \<in> set (map (envied_items_of m preferences allocation) [0..<n]).
                 map_res (nth_res allocation) items = Inr (map (\<lambda>i. allocation ! i) items)"
  proof
    fix items
    assume "items \<in> set (map (envied_items_of m preferences allocation) [0..<n])"
    then have "\<forall>i \<in> set items. i < length allocation"
      using assms(2) by (auto simp: envied_items_of_def valid_allocation_def)
    then show "map_res (nth_res allocation) items = Inr (map (\<lambda>i. allocation ! i) items)"
      by (intro map_res_all_Inr) simp
  qed
  show ?thesis
    using map_res_all_Inr [OF inner]
    by (simp add: calculate_item_envy_relations_def items envied_agents_def comp_def)
qed

lemma shorten_loop_closed:
  "i + length edges \<le> length acc \<Longrightarrow>
   shorten_loop edges i acc =
     Inr (take i acc @ map (\<lambda>e. Adj (dict_fromkeys (sort e))) edges @ drop (i + length edges) acc)"
proof (induction edges arbitrary: i acc)
  case Nil
  show ?case by simp
next
  case (Cons e edges)
  let ?acc = "acc[i := Adj (dict_fromkeys (sort e))]"
  have i: "i < length acc" using Cons.prems by simp
  have "shorten_loop (e # edges) i acc = shorten_loop edges (i + 1) ?acc"
    using i by simp
  also have "\<dots> = Inr (take (i + 1) ?acc @ map (\<lambda>e. Adj (dict_fromkeys (sort e))) edges
                        @ drop (i + 1 + length edges) ?acc)"
    using Cons.prems by (intro Cons.IH) simp
  also have "take (i + 1) ?acc = take i acc @ [Adj (dict_fromkeys (sort e))]"
    using i by (simp add: take_Suc_conv_app_nth)
  also have "drop (i + 1 + length edges) ?acc = drop (i + length (e # edges)) acc"
    by simp
  finally show ?case by simp
qed

lemma shorten_envy_list_closed:
  "length edges = n \<Longrightarrow>
   shorten_envy_list n edges = Inr (map (\<lambda>e. Adj (dict_fromkeys (sort e))) edges)"
  using shorten_loop_closed [of 0 edges "replicate n Unfilled"]
  by (simp add: shorten_envy_list_def)

lemma envy_graph_closed:
  assumes "valid_preferences n m preferences" and "valid_allocation n m allocation"
  shows "envy_graph n m preferences allocation =
         Inr (map (\<lambda>x. Adj (envied_by m preferences allocation x)) [0..<n])"
  using calculate_item_envy_relations_closed [OF assms]
  by (simp add: envy_graph_def shorten_envy_list_closed envied_by_def comp_def)

lemma set_dict_fromkeys [simp]: "set (dict_fromkeys xs) = set xs"
  by (induction xs rule: dict_fromkeys.induct) auto

lemma distinct_dict_fromkeys [simp]: "distinct (dict_fromkeys xs)"
  by (induction xs rule: dict_fromkeys.induct) auto

lemma sorted_dict_fromkeys: "sorted xs \<Longrightarrow> sorted (dict_fromkeys xs)"
  by (induction xs rule: dict_fromkeys.induct) (auto intro: sorted_wrt_filter)

lemma set_envied_by:
  "set (envied_by m preferences allocation x) =
     {b. b \<noteq> x \<and> (\<exists>i < m. preferences ! x ! i \<and> allocation ! i = b)}"
  by (auto simp: envied_by_def envied_items_of_def)

text \<open>
  Claim C5. For an \<open>n \<times> m\<close> preferences matrix and an allocation of the \<open>m\<close> items to agents
  below \<open>n\<close>, the envy graph builder (\<^verbatim>\<open>calculate_item_envy_relations\<close> followed by
  \<^verbatim>\<open>shorten_envy_list\<close>) returns one adjacency list per agent. The list of agent \<open>a\<close> is
  sorted ascending and duplicate-free, it contains \<open>b\<close> if and only if \<open>b\<close> is not \<open>a\<close> and \<open>a\<close>
  likes some item currently allocated to \<open>b\<close>, and so it never contains \<open>a\<close> itself.
\<close>

theorem envy_graph_adjacency:
  assumes "valid_preferences n m preferences" and "valid_allocation n m allocation"
  shows "\<exists>graph. envy_graph n m preferences allocation = Inr graph \<and> length graph = n \<and>
           (\<forall>a < n. \<exists>envied. graph ! a = Adj envied \<and> sorted envied \<and> distinct envied \<and>
              a \<notin> set envied \<and>
              (\<forall>b. b \<in> set envied \<longleftrightarrow>
                 b \<noteq> a \<and> (\<exists>i < m. preferences ! a ! i \<and> allocation ! i = b)))"
proof -
  let ?graph = "map (\<lambda>x. Adj (envied_by m preferences allocation x)) [0..<n]"
  have "\<forall>a < n. \<exists>envied. ?graph ! a = Adj envied \<and> sorted envied \<and> distinct envied \<and>
              a \<notin> set envied \<and>
              (\<forall>b. b \<in> set envied \<longleftrightarrow>
                 b \<noteq> a \<and> (\<exists>i < m. preferences ! a ! i \<and> allocation ! i = b))"
  proof (intro allI impI)
    fix a assume "a < n"
    have "sorted (envied_by m preferences allocation a)"
      by (simp add: envied_by_def sorted_dict_fromkeys)
    moreover have "distinct (envied_by m preferences allocation a)"
      by (simp add: envied_by_def)
    ultimately show "\<exists>envied. ?graph ! a = Adj envied \<and> sorted envied \<and> distinct envied \<and>
              a \<notin> set envied \<and>
              (\<forall>b. b \<in> set envied \<longleftrightarrow>
                 b \<noteq> a \<and> (\<exists>i < m. preferences ! a ! i \<and> allocation ! i = b))"
      using \<open>a < n\<close> set_envied_by [of m preferences allocation a]
      by (intro exI [of _ "envied_by m preferences allocation a"]) simp
  qed
  with envy_graph_closed [OF assms] show ?thesis
    by (intro exI [of _ ?graph]) simp
qed

theorem envy_graph_adjacency_witness:
  "valid_preferences 3 3 [[True, True, False], [False, True, True], [False, False, True]] \<and>
   valid_allocation 3 3 [0, 1, 2] \<and>
   envy_graph 3 3 [[True, True, False], [False, True, True], [False, False, True]] [0, 1, 2]
     = Inr [Adj [1], Adj [2], Adj []] \<and>
   (\<exists>graph. envy_graph 3 3 [[True, True, False], [False, True, True], [False, False, True]]
              [0, 1, 2] = Inr graph \<and> length graph = 3)"
proof -
  let ?P = "[[True, True, False], [False, True, True], [False, False, True]]"
  have h1: "valid_preferences 3 3 ?P"
    by (simp add: valid_preferences_def)
  have h2: "valid_allocation 3 3 [0, 1, 2]"
    by (simp add: valid_allocation_def)
  have run: "envy_graph 3 3 ?P [0, 1, 2] = Inr [Adj [1], Adj [2], Adj []]"
    by (simp add: envy_graph_def calculate_item_envy_relations_def envy_list_def
        envied_agents_def shorten_envy_list_def upt_rec numeral_eq_Suc)
  from envy_graph_adjacency [OF h1 h2]
  have "\<exists>graph. envy_graph 3 3 ?P [0, 1, 2] = Inr graph \<and> length graph = 3"
    by blast
  with h1 h2 run show ?thesis by blast
qed

section \<open>Breadth-first search: the paths it stores\<close>

text \<open>The edges of an envy relation, and the invariant of the search from \<open>start\<close>: the
  queue holds visited nodes, a node is visited exactly when it has a distance, and the
  path noted for a visited node, with the node itself appended, is a walk along edges
  that begins at \<open>start\<close>.\<close>

definition envies :: "adjacency list \<Rightarrow> nat \<Rightarrow> nat \<Rightarrow> bool" where
  "envies graph u v \<longleftrightarrow>
     u < length graph \<and> (case graph ! u of Adj neighbours \<Rightarrow> v \<in> set neighbours | Unfilled \<Rightarrow> False)"

definition bfs_inv :: "nat \<Rightarrow> adjacency list \<Rightarrow> nat \<Rightarrow> bfs_state \<Rightarrow> bool" where
  "bfs_inv n graph start s \<longleftrightarrow>
     length (visited s) = n \<and> length (distances s) = n \<and>
     length (shortest_paths_to_node s) = n \<and>
     start < n \<and> visited s ! start \<and> shortest_paths_to_node s ! start = [] \<and>
     (\<forall>q \<in> set (queue s). q < n \<and> visited s ! q) \<and>
     (\<forall>v < n. visited s ! v \<longleftrightarrow> distances s ! v \<noteq> None) \<and>
     (\<forall>v < n. visited s ! v \<longrightarrow>
        hd (shortest_paths_to_node s ! v @ [v]) = start \<and>
        successively (envies graph) (shortest_paths_to_node s ! v @ [v]))"

lemma bfs_inv_init: "start < n \<Longrightarrow> bfs_inv n graph start (bfs_init n start)"
  by (auto simp: bfs_inv_def bfs_init_def nth_list_update)

lemma bfs_inv_mark:
  assumes inv: "bfs_inv n graph start s"
    and node: "node < n" "visited s ! node"
    and v: "v < n" "\<not> visited s ! v"
    and edge: "envies graph node v"
  shows "bfs_inv n graph start
           (s\<lparr>visited := (visited s)[v := True],
              distances := (distances s)[v := Some d],
              shortest_paths_to_node :=
                (shortest_paths_to_node s)[v := shortest_paths_to_node s ! node @ [node]],
              queue := queue s @ [v]\<rparr>)"
proof -
  have ne: "v \<noteq> node" "v \<noteq> start"
    using inv node v by (auto simp: bfs_inv_def)
  have pnode: "hd (shortest_paths_to_node s ! node @ [node]) = start"
      "successively (envies graph) (shortest_paths_to_node s ! node @ [node])"
    using inv node by (simp_all add: bfs_inv_def)
  have pv: "hd ((shortest_paths_to_node s ! node @ [node]) @ [v]) = start"
      "successively (envies graph) ((shortest_paths_to_node s ! node @ [node]) @ [v])"
    using pnode edge by (auto simp: successively_append_iff hd_append split: if_splits)
  show ?thesis
    unfolding bfs_inv_def
  proof (intro conjI)
    show "\<forall>va<n. visited (s\<lparr>visited := (visited s)[v := True],
              distances := (distances s)[v := Some d],
              shortest_paths_to_node :=
                (shortest_paths_to_node s)[v := shortest_paths_to_node s ! node @ [node]],
              queue := queue s @ [v]\<rparr>) ! va \<longrightarrow>
        hd (shortest_paths_to_node (s\<lparr>visited := (visited s)[v := True],
              distances := (distances s)[v := Some d],
              shortest_paths_to_node :=
                (shortest_paths_to_node s)[v := shortest_paths_to_node s ! node @ [node]],
              queue := queue s @ [v]\<rparr>) ! va @ [va]) = start \<and>
        successively (envies graph) (shortest_paths_to_node (s\<lparr>visited := (visited s)[v := True],
              distances := (distances s)[v := Some d],
              shortest_paths_to_node :=
                (shortest_paths_to_node s)[v := shortest_paths_to_node s ! node @ [node]],
              queue := queue s @ [v]\<rparr>) ! va @ [va])"
    proof (intro allI impI)
      fix w assume w: "w < n" and "visited (s\<lparr>visited := (visited s)[v := True],
              distances := (distances s)[v := Some d],
              shortest_paths_to_node :=
                (shortest_paths_to_node s)[v := shortest_paths_to_node s ! node @ [node]],
              queue := queue s @ [v]\<rparr>) ! w"
      then have vis: "w = v \<or> visited s ! w"
        by (cases "w = v") simp_all
      show "hd (shortest_paths_to_node (s\<lparr>visited := (visited s)[v := True],
              distances := (distances s)[v := Some d],
              shortest_paths_to_node :=
                (shortest_paths_to_node s)[v := shortest_paths_to_node s ! node @ [node]],
              queue := queue s @ [v]\<rparr>) ! w @ [w]) = start \<and>
        successively (envies graph) (shortest_paths_to_node (s\<lparr>visited := (visited s)[v := True],
              distances := (distances s)[v := Some d],
              shortest_paths_to_node :=
                (shortest_paths_to_node s)[v := shortest_paths_to_node s ! node @ [node]],
              queue := queue s @ [v]\<rparr>) ! w @ [w])"
      proof (cases "w = v")
        case True
        with pv v inv show ?thesis by (simp add: bfs_inv_def)
      next
        case False
        with vis w inv show ?thesis by (simp add: bfs_inv_def)
      qed
    qed
  qed (use inv v ne in \<open>auto simp: bfs_inv_def nth_list_update\<close>)
qed


lemma bfs_neighbours_inv:
  assumes "node < n"
  shows "bfs_inv n graph start s \<Longrightarrow> visited s ! node \<Longrightarrow>
         \<forall>v \<in> set vs. envies graph node v \<Longrightarrow>
         bfs_neighbours node vs s = Inr s' \<Longrightarrow> bfs_inv n graph start s'"
proof (induction vs arbitrary: s)
  case Nil
  then show ?case by simp
next
  case (Cons v vs)
  have len: "length (visited s) = n" "length (distances s) = n"
      "length (shortest_paths_to_node s) = n"
    using Cons.prems(1) by (simp_all add: bfs_inv_def)
  have dist: "distances s ! node \<noteq> None"
    using Cons.prems(1,2) assms by (simp add: bfs_inv_def)
  from Cons.prems(4) len have v: "v < n"
    by (cases "v < n") simp_all
  show ?case
  proof (cases "visited s ! v")
    case True
    with Cons.prems v len have "bfs_neighbours node vs s = Inr s'" by simp
    with Cons.IH Cons.prems show ?thesis by simp
  next
    case False
    from dist obtain d where d: "distances s ! node = Some d" by auto
    let ?s = "s\<lparr>visited := (visited s)[v := True],
                 distances := (distances s)[v := Some (d + 1)],
                 shortest_paths_to_node :=
                   (shortest_paths_to_node s)[v := shortest_paths_to_node s ! node @ [node]],
                 queue := queue s @ [v]\<rparr>"
    have rec: "bfs_neighbours node vs ?s = Inr s'"
      using Cons.prems(4) False v len d assms by simp
    have inv: "bfs_inv n graph start ?s"
      using Cons.prems assms v False by (intro bfs_inv_mark) simp_all
    have "visited ?s ! node"
      using Cons.prems(2) False by (cases "v = node") simp_all
    from Cons.IH [OF inv this _ rec] Cons.prems(3) show ?thesis by simp
  qed
qed

lemma bfs_neighbours_total:
  assumes "node < n"
  shows "bfs_inv n graph start s \<Longrightarrow> visited s ! node \<Longrightarrow>
         \<forall>v \<in> set vs. envies graph node v \<and> v < n \<Longrightarrow>
         \<exists>s'. bfs_neighbours node vs s = Inr s'"
proof (induction vs arbitrary: s)
  case Nil
  then show ?case by simp
next
  case (Cons v vs)
  have len: "length (visited s) = n" "length (distances s) = n"
      "length (shortest_paths_to_node s) = n"
    using Cons.prems(1) by (simp_all add: bfs_inv_def)
  have dist: "distances s ! node \<noteq> None"
    using Cons.prems(1,2) assms by (simp add: bfs_inv_def)
  have v: "v < n" using Cons.prems(3) by simp
  show ?case
  proof (cases "visited s ! v")
    case True
    with Cons.IH [OF Cons.prems(1,2)] Cons.prems(3) v len show ?thesis by simp
  next
    case False
    from dist obtain d where d: "distances s ! node = Some d" by auto
    let ?s = "s\<lparr>visited := (visited s)[v := True],
                 distances := (distances s)[v := Some (d + 1)],
                 shortest_paths_to_node :=
                   (shortest_paths_to_node s)[v := shortest_paths_to_node s ! node @ [node]],
                 queue := queue s @ [v]\<rparr>"
    have inv: "bfs_inv n graph start ?s"
      using Cons.prems assms v False by (intro bfs_inv_mark) simp_all
    have "visited ?s ! node"
      using Cons.prems(2) False by (cases "v = node") simp_all
    from Cons.IH [OF inv this] Cons.prems(3)
    have "\<exists>s'. bfs_neighbours node vs ?s = Inr s'" by simp
    then show ?thesis using False v len d assms by simp
  qed
qed

lemma bfs_inv_pop:
  "bfs_inv n graph start s \<Longrightarrow> queue s = node # rest \<Longrightarrow>
   bfs_inv n graph start (s\<lparr>queue := rest\<rparr>) \<and> node < n \<and> visited s ! node"
  by (simp add: bfs_inv_def)

lemma bfs_while_inv:
  "bfs_inv n graph start s \<Longrightarrow> bfs_while graph s = Inr s' \<Longrightarrow> bfs_inv n graph start s'"
proof (induction graph s rule: bfs_while.induct)
  case (1 graph s)
  show ?case
  proof (cases "queue s")
    case Nil
    with "1.prems" show ?thesis by simp
  next
    case (Cons node rest)
    from bfs_inv_pop [OF "1.prems"(1) Cons]
    have inv: "bfs_inv n graph start (s\<lparr>queue := rest\<rparr>)" and node: "node < n" "visited s ! node"
      by simp_all
    from "1.prems"(2) Cons have inrange: "node < length graph"
      by (cases "node < length graph") simp_all
    from "1.prems"(2) Cons inrange obtain neighbours where adj: "graph ! node = Adj neighbours"
      by (cases "graph ! node") simp_all
    from "1.prems"(2) Cons inrange adj obtain s1 where
      inner: "bfs_neighbours node neighbours (s\<lparr>queue := rest\<rparr>) = Inr s1"
      and rec: "bfs_while graph s1 = Inr s'"
      by (cases "bfs_neighbours node neighbours (s\<lparr>queue := rest\<rparr>)") simp_all
    have edges: "\<forall>v \<in> set neighbours. envies graph node v"
      using inrange adj by (simp add: envies_def)
    have "bfs_inv n graph start s1"
      using bfs_neighbours_inv [OF node(1) inv _ edges inner] node(2) by simp
    from "1.IH" [OF Cons _ adj inner this rec] inrange show ?thesis by simp
  qed
qed

text \<open>An envy relation over \<open>n\<close> agents: \<open>n\<close> filled entries that name agents below \<open>n\<close>.\<close>

definition valid_graph :: "nat \<Rightarrow> adjacency list \<Rightarrow> bool" where
  "valid_graph n graph \<longleftrightarrow>
     length graph = n \<and>
     list_all (\<lambda>entry. case entry of Adj neighbours \<Rightarrow> list_all (\<lambda>v. v < n) neighbours
                                  | Unfilled \<Rightarrow> False) graph"

lemma valid_graph_entry:
  assumes "valid_graph n graph" and "node < n"
  obtains neighbours where "graph ! node = Adj neighbours" and "\<forall>v \<in> set neighbours. v < n"
proof -
  from assms have "case graph ! node of Adj neighbours \<Rightarrow> list_all (\<lambda>v. v < n) neighbours
                                      | Unfilled \<Rightarrow> False"
    by (simp add: valid_graph_def list_all_length)
  then show thesis
    using that by (cases "graph ! node") (simp_all add: list_all_iff)
qed

lemma bfs_while_total:
  "valid_graph n graph \<Longrightarrow> bfs_inv n graph start s \<Longrightarrow> \<exists>s'. bfs_while graph s = Inr s'"
proof (induction graph s rule: bfs_while.induct)
  case (1 graph s)
  show ?case
  proof (cases "queue s")
    case Nil
    then show ?thesis by simp
  next
    case (Cons node rest)
    from bfs_inv_pop [OF "1.prems"(2) Cons]
    have inv: "bfs_inv n graph start (s\<lparr>queue := rest\<rparr>)" and node: "node < n" "visited s ! node"
      by simp_all
    have inrange: "node < length graph"
      using node(1) "1.prems"(1) by (simp add: valid_graph_def)
    from valid_graph_entry [OF "1.prems"(1) node(1)] obtain neighbours where
      adj: "graph ! node = Adj neighbours" and small: "\<forall>v \<in> set neighbours. v < n"
      by blast
    have edges: "\<forall>v \<in> set neighbours. envies graph node v \<and> v < n"
      using inrange adj small by (simp add: envies_def)
    from bfs_neighbours_total [OF node(1) inv _ edges] node(2) obtain s1 where
      inner: "bfs_neighbours node neighbours (s\<lparr>queue := rest\<rparr>) = Inr s1"
      by auto
    have "bfs_inv n graph start s1"
      using bfs_neighbours_inv [OF node(1) inv _ _ inner] edges node(2) by simp
    from "1.IH" [OF Cons _ adj inner "1.prems"(1) this] inrange
    obtain s' where "bfs_while graph s1 = Inr s'" by auto
    then show ?thesis using Cons inrange adj inner by simp
  qed
qed


lemma bfs_clean_closed:
  "distinct is \<Longrightarrow> \<forall>i \<in> set is. i < length paths \<Longrightarrow>
   bfs_clean start is ds paths =
     map (\<lambda>i. if i \<in> set is \<and> i \<noteq> start
               then (if ds ! i = None then [] else paths ! i @ [i])
               else paths ! i) [0..<length paths]"
proof (induction "is" arbitrary: paths)
  case Nil
  show ?case by (simp add: map_nth)
next
  case (Cons i rest)
  show ?case
  proof (cases "i = start")
    case True
    with Cons show ?thesis by auto
  next
    case False
    let ?paths = "paths[i := (if ds ! i = None then [] else paths ! i @ [i])]"
    have "bfs_clean start (i # rest) ds paths = bfs_clean start rest ds ?paths"
      using False by simp
    also have "\<dots> = map (\<lambda>j. if j \<in> set rest \<and> j \<noteq> start
                             then (if ds ! j = None then [] else ?paths ! j @ [j])
                             else ?paths ! j) [0..<length ?paths]"
      using Cons.prems by (intro Cons.IH) simp_all
    also have "\<dots> = map (\<lambda>j. if j \<in> set (i # rest) \<and> j \<noteq> start
                             then (if ds ! j = None then [] else paths ! j @ [j])
                             else paths ! j) [0..<length paths]"
      using Cons.prems False by (auto simp: nth_list_update)
    finally show ?thesis .
  qed
qed

lemma bfs_result:
  assumes "bfs n graph start = Inr table"
  obtains s where "bfs_inv n graph start s"
    and "table = map (\<lambda>i. if i \<noteq> start
                          then (if distances s ! i = None then []
                                else shortest_paths_to_node s ! i @ [i])
                          else []) [0..<n]"
proof -
  from assms have start: "start < n"
    by (cases "start < n") (simp_all add: bfs_def)
  from assms start obtain s where
    run: "bfs_while graph (bfs_init n start) = Inr s"
    and table: "table = bfs_clean start [0..<n] (distances s) (shortest_paths_to_node s)"
    by (cases "bfs_while graph (bfs_init n start)") (simp_all add: bfs_def)
  have inv: "bfs_inv n graph start s"
    using bfs_while_inv [OF bfs_inv_init [OF start] run] .
  then have len: "length (shortest_paths_to_node s) = n"
    and empty: "shortest_paths_to_node s ! start = []"
    by (simp_all add: bfs_inv_def)
  have "table = map (\<lambda>i. if i \<noteq> start
                          then (if distances s ! i = None then []
                                else shortest_paths_to_node s ! i @ [i])
                          else []) [0..<n]"
    using bfs_clean_closed [of "[0..<n]" "shortest_paths_to_node s" start "distances s"]
      len empty table
    by auto
  with inv show thesis by (rule that)
qed

lemma bfs_paths_are_walks:
  assumes "bfs n graph source = Inr table" and "target < n" and "table ! target \<noteq> []"
  shows "hd (table ! target) = source" and "last (table ! target) = target"
    and "target \<noteq> source" and "successively (envies graph) (table ! target)"
proof -
  from bfs_result [OF assms(1)] obtain s where inv: "bfs_inv n graph source s"
    and table: "table = map (\<lambda>i. if i \<noteq> source
                          then (if distances s ! i = None then []
                                else shortest_paths_to_node s ! i @ [i])
                          else []) [0..<n]"
    by blast
  from table assms(2,3) have ne: "target \<noteq> source" and reached: "distances s ! target \<noteq> None"
    and path: "table ! target = shortest_paths_to_node s ! target @ [target]"
    by (auto split: if_splits)
  from inv reached assms(2) have "visited s ! target"
    by (simp add: bfs_inv_def)
  with inv assms(2) have "hd (shortest_paths_to_node s ! target @ [target]) = source"
    and "successively (envies graph) (shortest_paths_to_node s ! target @ [target])"
    by (simp_all add: bfs_inv_def)
  with path ne show "hd (table ! target) = source" "last (table ! target) = target"
    "target \<noteq> source" "successively (envies graph) (table ! target)"
    by simp_all
qed

lemma bfs_table_shape:
  assumes "bfs n graph source = Inr table"
  shows "length table = n" and "source < n" and "table ! source = []"
proof -
  from bfs_result [OF assms] obtain s where inv: "bfs_inv n graph source s"
    and table: "table = map (\<lambda>i. if i \<noteq> source
                          then (if distances s ! i = None then []
                                else shortest_paths_to_node s ! i @ [i])
                          else []) [0..<n]"
    by blast
  from inv have "source < n" by (simp add: bfs_inv_def)
  with table show "length table = n" "source < n" "table ! source = []" by simp_all
qed

lemma bfs_total:
  assumes "valid_graph n graph" and "source < n"
  shows "\<exists>table. bfs n graph source = Inr table"
proof -
  from bfs_while_total [OF assms(1) bfs_inv_init [OF assms(2)]]
  obtain s where "bfs_while graph (bfs_init n source) = Inr s" by blast
  with assms(2) show ?thesis by (simp add: bfs_def)
qed

text \<open>
  Claim C1, as the code has it. For the envy graph with three agents and the edges
  \<open>0 \<rightarrow> 1\<close> and \<open>1 \<rightarrow> 2\<close>, \<^verbatim>\<open>bfs\<close> from source 0 stores the path \<open>[0, 1]\<close> to node 1 and the
  path \<open>[0, 1, 2]\<close> to node 2, and from source 2 it stores the empty path to every node.
  In general the table of a source has one entry per agent, the entry of the source
  itself is empty, and every non-empty stored path begins with the source, ends at its
  target and so has at least two nodes: a stored path includes the source.
\<close>

theorem bfs_paths_begin_at_source:
  "bfs 3 [Adj [1], Adj [2], Adj []] 0 = Inr [[], [0, 1], [0, 1, 2]] \<and>
   bfs 3 [Adj [1], Adj [2], Adj []] 2 = Inr [[], [], []] \<and>
   (bfs n graph source = Inr table \<longrightarrow>
      length table = n \<and> table ! source = [] \<and>
      (target < n \<and> table ! target \<noteq> [] \<longrightarrow>
         hd (table ! target) = source \<and> last (table ! target) = target \<and>
         2 \<le> length (table ! target)))"
proof (intro conjI impI)
  show "bfs 3 [Adj [1], Adj [2], Adj []] 0 = Inr [[], [0, 1], [0, 1, 2]]"
    by (simp add: bfs_def bfs_init_def upt_rec numeral_eq_Suc)
  show "bfs 3 [Adj [1], Adj [2], Adj []] 2 = Inr [[], [], []]"
    by (simp add: bfs_def bfs_init_def upt_rec numeral_eq_Suc)
next
  assume run: "bfs n graph source = Inr table"
  from bfs_table_shape [OF run] show "length table = n" "table ! source = []"
    by simp_all
  assume "target < n \<and> table ! target \<noteq> []"
  then have target: "target < n" and path: "table ! target \<noteq> []"
    by simp_all
  from bfs_paths_are_walks(3) [OF run target path]
  have differ: "target \<noteq> source" .
  from bfs_paths_are_walks(1,2) [OF run target path]
  show first: "hd (table ! target) = source" and final: "last (table ! target) = target"
    by simp_all
  show "2 \<le> length (table ! target)"
  proof (cases "table ! target")
    case Nil
    with path show ?thesis by simp
  next
    case (Cons a rest)
    with first final differ show ?thesis by (cases rest) auto
  qed
qed

theorem bfs_paths_begin_at_source_witness:
  "bfs 3 [Adj [1], Adj [2], Adj []] 0 = Inr [[], [0, 1], [0, 1, 2]] \<and>
   (2::nat) < 3 \<and> [[], [0, 1], [0, 1, 2::nat]] ! 2 \<noteq> [] \<and>
   hd ([[], [0, 1], [0, 1, 2::nat]] ! 2) = 0 \<and>
   last ([[], [0, 1], [0, 1, 2::nat]] ! 2) = 2 \<and>
   2 \<le> length ([[], [0, 1], [0, 1, 2::nat]] ! 2)"
proof -
  let ?graph = "[Adj [1], Adj [2], Adj []]"
  let ?table = "[[], [0, 1], [0, 1, 2::nat]]"
  note general = bfs_paths_begin_at_source [of 3 ?graph 0 ?table 2]
  from general have run: "bfs 3 ?graph 0 = Inr ?table"
    by blast
  have h: "(2::nat) < 3 \<and> ?table ! 2 \<noteq> []"
    by simp
  from general run h
  have "hd (?table ! 2) = 0 \<and> last (?table ! 2) = 2 \<and> 2 \<le> length (?table ! 2)"
    by blast
  with run h show ?thesis by blast
qed

text \<open>The claim as the specification words it (the path to node 1 is \<open>[1]\<close>, the path to
  node 2 is \<open>[1, 2]\<close>, no stored path holds its source) fails on the very example it
  gives: the row of source 0 in the APSP matrix holds \<open>[0, 1]\<close> and \<open>[0, 1, 2]\<close>.\<close>

theorem solve_APSP_paths_include_source:
  "solve_APSP 3 [Adj [1], Adj [2], Adj []] =
     Inr [[[], [0, 1], [0, 1, 2]], [[], [], [1, 2]], [[], [], []]] \<and>
   [0, 1] \<noteq> [1::nat] \<and> [0, 1, 2] \<noteq> [1, 2::nat]"
  by (simp add: solve_APSP_def bfs_def bfs_init_def upt_rec numeral_eq_Suc)

section \<open>Item selection and the swap\<close>

text \<open>The first item of the giver of hop \<open>k\<close> that the receiver of the hop likes.\<close>

definition hop_item :: "bool list list \<Rightarrow> nat list list \<Rightarrow> nat list \<Rightarrow> nat \<Rightarrow> nat option" where
  "hop_item preferences possessions best_path k =
     find (\<lambda>item. preferences ! (best_path ! k) ! item) (possessions ! (best_path ! (k + 1)))"

lemma pick_giveable_find:
  "receiver < length preferences \<Longrightarrow>
   \<forall>item \<in> set items. item < length (preferences ! receiver) \<Longrightarrow>
   pick_giveable preferences receiver items =
     Inr (find (\<lambda>item. preferences ! receiver ! item) items)"
  by (induction items) simp_all

lemma pick_items_loop_closed:
  "\<forall>k \<in> set agents. best_path ! (k + 1) < length possessions \<and>
      best_path ! k < length preferences \<and>
      (\<forall>item \<in> set (possessions ! (best_path ! (k + 1))).
         item < length (preferences ! (best_path ! k))) \<Longrightarrow>
   pick_items_loop best_path possessions preferences agents swapping_item_list =
     Inr (swapping_item_list @
          List.map_filter (hop_item preferences possessions best_path) agents)"
proof (induction agents arbitrary: swapping_item_list)
  case Nil
  show ?case by simp
next
  case (Cons k agents)
  have pick: "pick_giveable preferences (best_path ! k) (possessions ! (best_path ! (k + 1))) =
              Inr (hop_item preferences possessions best_path k)"
    using Cons.prems by (simp add: hop_item_def pick_giveable_find)
  have rest: "\<And>acc. pick_items_loop best_path possessions preferences agents acc =
     Inr (acc @ List.map_filter (hop_item preferences possessions best_path) agents)"
    using Cons.prems by (intro Cons.IH) simp
  show ?case
    using Cons.prems pick rest
    by (cases "hop_item preferences possessions best_path k")
       simp_all
qed

lemma length_map_filter_le: "length (List.map_filter f xs) \<le> length xs"
  by (induction xs) (simp_all split: option.splits)

lemma length_map_filter_less:
  "x \<in> set xs \<Longrightarrow> f x = None \<Longrightarrow> length (List.map_filter f xs) < length xs"
proof (induction xs)
  case Nil
  then show ?case by simp
next
  case (Cons y ys)
  show ?case
  proof (cases "x = y")
    case True
    with Cons.prems length_map_filter_le [of f ys] show ?thesis
      by simp
  next
    case False
    with Cons show ?thesis
      by (simp split: option.splits)
  qed
qed

lemma length_map_filter_all:
  "\<forall>x \<in> set xs. f x \<noteq> None \<Longrightarrow> List.map_filter f xs = map (\<lambda>x. the (f x)) xs"
  by (induction xs) auto

lemma set_map_filter_find:
  "set (List.map_filter (hop_item preferences possessions best_path) agents) \<subseteq>
     (\<Union>k \<in> set agents. set (possessions ! (best_path ! (k + 1))))"
proof (induction agents)
  case Nil
  show ?case by simp
next
  case (Cons k agents)
  show ?case
  proof (cases "hop_item preferences possessions best_path k")
    case None
    with Cons show ?thesis by auto
  next
    case (Some item)
    then have "item \<in> set (possessions ! (best_path ! (k + 1)))"
      by (auto simp: hop_item_def find_Some_iff)
    with Cons Some show ?thesis by auto
  qed
qed

lemma execute_swap_loop_append:
  "execute_swap_loop allocation swapping_list best_path (xs @ ys) =
     (case execute_swap_loop allocation swapping_list best_path xs of
        Inl e \<Rightarrow> Inl e
      | Inr allocation1 \<Rightarrow> execute_swap_loop allocation1 swapping_list best_path ys)"
  by (induction xs arbitrary: allocation) (simp_all split: sum.splits)

lemma execute_swap_loop_untouched:
  "execute_swap_loop allocation swapping_list best_path ks = Inr allocation' \<Longrightarrow>
   i \<notin> (\<lambda>k. swapping_list ! k) ` set ks \<Longrightarrow> allocation' ! i = allocation ! i"
proof (induction ks arbitrary: allocation)
  case Nil
  then show ?case by simp
next
  case (Cons k ks)
  from Cons.prems(1) have inpath: "k < length best_path"
    by (cases "k < length best_path") simp_all
  from Cons.prems(1) inpath have inalloc: "swapping_list ! k < length allocation"
    by (simp split: if_splits)
  from Cons.prems(1) inpath inalloc
  have rec: "execute_swap_loop (allocation[swapping_list ! k := best_path ! k])
               swapping_list best_path ks = Inr allocation'"
    by simp
  from Cons.IH [OF rec] Cons.prems(2) show ?case by simp
qed

lemma execute_swap_assigns:
  assumes run: "execute_swap allocation swapping_list best_path = Inr allocation'"
    and k: "k < length swapping_list"
    and later: "swapping_list ! k \<notin> set (drop (k + 1) swapping_list)"
  shows "allocation' ! (swapping_list ! k) = best_path ! k"
proof -
  have split: "[0..<length swapping_list] = [0..<k] @ k # [k + 1..<length swapping_list]"
    using k by (metis Suc_eq_plus1 le0 less_imp_add_positive upt_add_eq_append upt_conv_Cons)
  from run obtain a1 where
    first: "execute_swap_loop allocation swapping_list best_path [0..<k] = Inr a1"
    and rest: "execute_swap_loop a1 swapping_list best_path (k # [k + 1..<length swapping_list])
                 = Inr allocation'"
    unfolding execute_swap_def split execute_swap_loop_append
    by (cases "execute_swap_loop allocation swapping_list best_path [0..<k]") simp_all
  from rest have inpath: "k < length best_path"
    by (cases "k < length best_path") simp_all
  from rest inpath have inalloc: "swapping_list ! k < length a1"
    by (simp split: if_splits)
  from rest inpath inalloc
  have tail: "execute_swap_loop (a1[swapping_list ! k := best_path ! k]) swapping_list best_path
                [k + 1..<length swapping_list] = Inr allocation'"
    by simp
  have "swapping_list ! k \<notin> (\<lambda>j. swapping_list ! j) ` set [k + 1..<length swapping_list]"
  proof
    assume "swapping_list ! k \<in> (\<lambda>j. swapping_list ! j) ` set [k + 1..<length swapping_list]"
    then obtain j where j: "k + 1 \<le> j" "j < length swapping_list"
      and same: "swapping_list ! k = swapping_list ! j"
      by auto
    have "swapping_list ! j = drop (k + 1) swapping_list ! (j - (k + 1))"
      using j by simp
    moreover have "j - (k + 1) < length (drop (k + 1) swapping_list)"
      using j by simp
    ultimately have "swapping_list ! j \<in> set (drop (k + 1) swapping_list)"
      by (metis nth_mem)
    with same later show False by simp
  qed
  from execute_swap_loop_untouched [OF tail this] inalloc show ?thesis by simp
qed


lemma pick_items_closed:
  assumes prefs: "valid_preferences n m preferences"
    and alloc: "valid_allocation n m allocation"
    and path: "list_all (\<lambda>a. a < n) best_path"
  shows "pick_items best_path allocation (map (owned_items allocation) [0..<n]) preferences =
         Inr (List.map_filter
                (hop_item preferences (map (owned_items allocation) [0..<n]) best_path)
                [0..<length best_path - 1])"
proof -
  let ?poss = "map (owned_items allocation) [0..<n]"
  have "\<forall>k \<in> set [0..<length best_path - 1].
          best_path ! (k + 1) < length ?poss \<and> best_path ! k < length preferences \<and>
          (\<forall>item \<in> set (?poss ! (best_path ! (k + 1))).
             item < length (preferences ! (best_path ! k)))"
  proof
    fix k assume "k \<in> set [0..<length best_path - 1]"
    then have k: "k < length best_path" "k + 1 < length best_path" by auto
    with path have agents: "best_path ! k < n" "best_path ! (k + 1) < n"
      by (simp_all add: list_all_length)
    have row: "length (preferences ! (best_path ! k)) = m"
      using prefs agents(1) by (simp add: valid_preferences_def list_all_length)
    have "set (owned_items allocation (best_path ! (k + 1))) \<subseteq> {..<m}"
      using owned_items_partition(2) [OF alloc] by blast
    with agents row prefs
    show "best_path ! (k + 1) < length ?poss \<and> best_path ! k < length preferences \<and>
          (\<forall>item \<in> set (?poss ! (best_path ! (k + 1))).
             item < length (preferences ! (best_path ! k)))"
      by (auto simp: valid_preferences_def)
  qed
  from pick_items_loop_closed [OF this] show ?thesis
    by (simp add: pick_items_def)
qed

lemma plan_items_in_range:
  assumes alloc: "valid_allocation n m allocation"
    and path: "list_all (\<lambda>a. a < n) best_path"
  shows "set (List.map_filter
                (hop_item preferences (map (owned_items allocation) [0..<n]) best_path)
                [0..<length best_path - 1]) \<subseteq> {..<m}"
proof
  fix item
  let ?poss = "map (owned_items allocation) [0..<n]"
  assume "item \<in> set (List.map_filter (hop_item preferences ?poss best_path)
                          [0..<length best_path - 1])"
  with set_map_filter_find [of preferences ?poss best_path "[0..<length best_path - 1]"]
  obtain k where k: "k < length best_path - 1"
    and item: "item \<in> set (?poss ! (best_path ! (k + 1)))"
    by auto
  from k path have "best_path ! (k + 1) < n"
    by (simp add: list_all_length)
  with item have "item \<in> set (owned_items allocation (best_path ! (k + 1)))"
    by simp
  with owned_items_partition(2) [OF alloc] show "item \<in> {..<m}"
    by blast
qed

section \<open>Paths of the APSP matrix of the envy graph\<close>

lemma map_res_Inr_nth:
  "map_res f xs = Inr ys \<Longrightarrow> length ys = length xs \<and> (\<forall>i < length xs. f (xs ! i) = Inr (ys ! i))"
proof (induction xs arbitrary: ys)
  case Nil
  then show ?case by simp
next
  case (Cons x xs)
  from Cons.prems obtain y where y: "f x = Inr y"
    by (cases "f x") simp_all
  from Cons.prems y obtain rest where rest: "map_res f xs = Inr rest" and ys: "ys = y # rest"
    by (cases "map_res f xs") auto
  from Cons.IH [OF rest] have len: "length rest = length xs"
    and nth: "\<And>i. i < length xs \<Longrightarrow> f (xs ! i) = Inr (rest ! i)"
    by simp_all
  show ?case
  proof (intro conjI allI impI)
    show "length ys = length (x # xs)"
      using len ys by simp
  next
    fix i assume "i < length (x # xs)"
    then show "f ((x # xs) ! i) = Inr (ys ! i)"
      using y ys nth by (cases i) simp_all
  qed
qed

lemma find_filter_conj: "find P (filter Q xs) = find (\<lambda>x. Q x \<and> P x) xs"
  by (induction xs) simp_all

lemma find_upt_least:
  assumes "find R [0..<m] = Some x"
  shows "x < m \<and> R x \<and> (\<forall>j < x. \<not> R j)"
proof -
  from assms obtain i where i: "i < length [0..<m]" and "R ([0..<m] ! i)"
    and x: "x = [0..<m] ! i" and least: "\<forall>j < i. \<not> R ([0..<m] ! j)"
    unfolding find_Some_iff by blast
  then show ?thesis by simp
qed

lemma find_owned_first:
  assumes "hop_item preferences (map (owned_items allocation) [0..<n]) best_path k = Some item"
    and "best_path ! (k + 1) < n"
  shows "item < length allocation \<and> allocation ! item = best_path ! (k + 1) \<and>
         preferences ! (best_path ! k) ! item \<and>
         (\<forall>j < item. allocation ! j = best_path ! (k + 1) \<longrightarrow> \<not> preferences ! (best_path ! k) ! j)"
proof -
  from assms have "find (\<lambda>i. allocation ! i = best_path ! (k + 1) \<and> preferences ! (best_path ! k) ! i)
                     [0..<length allocation] = Some item"
    by (simp add: hop_item_def owned_items_def find_filter_conj)
  from find_upt_least [OF this] show ?thesis by simp
qed

lemma hop_item_exists:
  assumes "best_path ! (k + 1) < n" and "i < length allocation"
    and "allocation ! i = best_path ! (k + 1)" and "preferences ! (best_path ! k) ! i"
  shows "hop_item preferences (map (owned_items allocation) [0..<n]) best_path k \<noteq> None"
  using assms by (auto simp: hop_item_def owned_items_def find_None_iff)

lemma envies_envy_graph:
  assumes "valid_preferences n m preferences" and "valid_allocation n m allocation"
    and "envy_graph n m preferences allocation = Inr graph"
  shows "envies graph u v \<longleftrightarrow>
           u < n \<and> v \<noteq> u \<and> (\<exists>i < m. preferences ! u ! i \<and> allocation ! i = v)"
proof -
  from envy_graph_closed [OF assms(1,2)] assms(3)
  have graph: "graph = map (\<lambda>x. Adj (envied_by m preferences allocation x)) [0..<n]"
    by simp
  show ?thesis
  proof (cases "u < n")
    case True
    then have "envies graph u v \<longleftrightarrow> v \<in> set (envied_by m preferences allocation u)"
      by (simp add: graph envies_def)
    also have "\<dots> \<longleftrightarrow> v \<noteq> u \<and> (\<exists>i < m. preferences ! u ! i \<and> allocation ! i = v)"
      unfolding set_envied_by by simp
    finally show ?thesis using True by simp
  next
    case False
    then show ?thesis by (simp add: graph envies_def)
  qed
qed

lemma valid_envy_graph:
  assumes "valid_preferences n m preferences" and "valid_allocation n m allocation"
    and "envy_graph n m preferences allocation = Inr graph"
  shows "valid_graph n graph"
proof -
  from envy_graph_closed [OF assms(1,2)] assms(3)
  have graph: "graph = map (\<lambda>x. Adj (envied_by m preferences allocation x)) [0..<n]"
    by simp
  have "\<And>x. \<forall>v \<in> set (envied_by m preferences allocation x). v < n"
    using assms(2) by (auto simp: set_envied_by valid_allocation_def list_all_length)
  then show ?thesis
    unfolding graph valid_graph_def by (simp add: list_all_iff)
qed

text \<open>An entry of the APSP matrix of the envy graph: a walk of envy edges from the source
  to the target.\<close>

lemma apsp_entry_walk:
  assumes prefs: "valid_preferences n m preferences" and alloc: "valid_allocation n m allocation"
    and graph: "envy_graph n m preferences allocation = Inr graph"
    and apsp: "solve_APSP n graph = Inr apsp_matrix"
    and source: "source < n" and target: "target < n"
    and path: "apsp_matrix ! source ! target \<noteq> []"
  shows "hd (apsp_matrix ! source ! target) = source"
    and "last (apsp_matrix ! source ! target) = target"
    and "2 \<le> length (apsp_matrix ! source ! target)"
    and "list_all (\<lambda>a. a < n) (apsp_matrix ! source ! target)"
    and "\<forall>k. k + 1 < length (apsp_matrix ! source ! target) \<longrightarrow>
           (\<exists>i < m. preferences ! (apsp_matrix ! source ! target ! k) ! i \<and>
                    allocation ! i = apsp_matrix ! source ! target ! (k + 1))"
proof -
  let ?p = "apsp_matrix ! source ! target"
  from map_res_Inr_nth [OF apsp [unfolded solve_APSP_def]] source
  have run: "bfs n graph source = Inr (apsp_matrix ! source)"
    by simp
  note walk = bfs_paths_are_walks [OF run target path]
  show first: "hd ?p = source" and final: "last ?p = target"
    using walk by simp_all
  show long: "2 \<le> length ?p"
  proof (cases ?p)
    case Nil
    with path show ?thesis by simp
  next
    case (Cons a rest)
    with first final walk(3) show ?thesis by (cases rest) auto
  qed
  have edge: "\<And>k. k + 1 < length ?p \<Longrightarrow>
                ?p ! k < n \<and> ?p ! (k + 1) \<noteq> ?p ! k \<and>
                (\<exists>i < m. preferences ! (?p ! k) ! i \<and> allocation ! i = ?p ! (k + 1))"
    using successively_nth [OF walk(4)] envies_envy_graph [OF prefs alloc graph]
    by simp
  show "\<forall>k. k + 1 < length ?p \<longrightarrow>
          (\<exists>i < m. preferences ! (?p ! k) ! i \<and> allocation ! i = ?p ! (k + 1))"
    using edge by blast
  show "list_all (\<lambda>a. a < n) ?p"
    unfolding list_all_length
  proof (intro allI impI)
    fix k assume k: "k < length ?p"
    show "?p ! k < n"
    proof (cases "k + 1 < length ?p")
      case True
      with edge show ?thesis by blast
    next
      case False
      with k have "k = length ?p - 1" by simp
      with final path target show ?thesis by (simp add: last_conv_nth)
    qed
  qed
qed

text \<open>
  Claim C7. Let the preferences be an \<open>n \<times> m\<close> matrix and the allocation map the \<open>m\<close> items
  to agents below \<open>n\<close>; let the path be a non-empty entry of the APSP matrix that
  \<^verbatim>\<open>solve_APSP\<close> built from the envy graph of this allocation. Then \<^verbatim>\<open>pick_items\<close>, on the
  possessions of the allocation, returns exactly \<open>len(path) - 1\<close> items. For every hop \<open>k\<close>
  the inner loop ends at its \<^verbatim>\<open>break\<close> with the \<open>k\<close>-th item: an item owned by the giver
  \<open>path[k + 1]\<close> that the receiver \<open>path[k]\<close> likes, and the first such item in index order.
  The loop never runs to its end without an item.
\<close>

theorem pick_items_one_item_per_hop:
  assumes prefs: "valid_preferences n m preferences" and alloc: "valid_allocation n m allocation"
    and graph: "envy_graph n m preferences allocation = Inr graph"
    and apsp: "solve_APSP n graph = Inr apsp_matrix"
    and source: "source < n" and target: "target < n"
    and path: "apsp_matrix ! source ! target = best_path" "best_path \<noteq> []"
  shows "\<exists>possessions items.
           find_possession n allocation = Inr possessions \<and>
           pick_items best_path allocation possessions preferences = Inr items \<and>
           length items = length best_path - 1 \<and>
           (\<forall>k < length best_path - 1.
              pick_giveable preferences (best_path ! k) (possessions ! (best_path ! (k + 1)))
                = Inr (Some (items ! k)) \<and>
              items ! k < m \<and> allocation ! (items ! k) = best_path ! (k + 1) \<and>
              preferences ! (best_path ! k) ! (items ! k) \<and>
              (\<forall>j < items ! k. allocation ! j = best_path ! (k + 1) \<longrightarrow>
                 \<not> preferences ! (best_path ! k) ! j))"
proof -
  let ?poss = "map (owned_items allocation) [0..<n]"
  let ?hop = "hop_item preferences ?poss best_path"
  let ?items = "map (\<lambda>k. the (?hop k)) [0..<length best_path - 1]"
  from path have nonempty: "apsp_matrix ! source ! target \<noteq> []" by simp
  note walk = apsp_entry_walk [OF prefs alloc graph apsp source target nonempty, unfolded path(1)]
  from alloc have len: "length allocation = m" and agents: "list_all (\<lambda>a. a < n) allocation"
    by (simp_all add: valid_allocation_def)
  have hop: "\<forall>k \<in> set [0..<length best_path - 1]. ?hop k \<noteq> None"
  proof
    fix k assume "k \<in> set [0..<length best_path - 1]"
    then have k: "k + 1 < length best_path" by auto
    with walk(5) obtain i where i: "i < m" "preferences ! (best_path ! k) ! i"
      "allocation ! i = best_path ! (k + 1)"
      by blast
    from k walk(4) have "best_path ! (k + 1) < n"
      by (simp add: list_all_length)
    from hop_item_exists [OF this, of i allocation preferences] i len
    show "?hop k \<noteq> None" by simp
  qed
  have poss: "find_possession n allocation = Inr ?poss"
    using find_possession_owned [OF agents] .
  have pick: "pick_items best_path allocation ?poss preferences = Inr ?items"
    using pick_items_closed [OF prefs alloc walk(4)] length_map_filter_all [OF hop]
    by simp
  have each: "\<forall>k < length best_path - 1.
              pick_giveable preferences (best_path ! k) (?poss ! (best_path ! (k + 1)))
                = Inr (Some (?items ! k)) \<and>
              ?items ! k < m \<and> allocation ! (?items ! k) = best_path ! (k + 1) \<and>
              preferences ! (best_path ! k) ! (?items ! k) \<and>
              (\<forall>j < ?items ! k. allocation ! j = best_path ! (k + 1) \<longrightarrow>
                 \<not> preferences ! (best_path ! k) ! j)"
  proof (intro allI impI)
    fix k assume k: "k < length best_path - 1"
    then have k1: "k + 1 < length best_path" and k0: "k < length best_path" by simp_all
    from walk(4) k0 k1 have recv: "best_path ! k < n" and giver: "best_path ! (k + 1) < n"
      by (simp_all add: list_all_length)
    from k have "k \<in> set [0..<length best_path - 1]" by simp
    with hop have "?hop k \<noteq> None" by blast
    then obtain item where item: "?hop k = Some item" by blast
    then have nth: "?items ! k = item" using k by simp
    note first = find_owned_first [OF item giver]
    have row: "length (preferences ! (best_path ! k)) = m" and inprefs: "best_path ! k < length preferences"
      using prefs recv by (simp_all add: valid_preferences_def list_all_length)
    have "\<forall>g \<in> set (owned_items allocation (best_path ! (k + 1))).
            g < length (preferences ! (best_path ! k))"
      using owned_items_partition(2) [OF alloc] row by auto
    from pick_giveable_find [OF inprefs this] item giver
    have "pick_giveable preferences (best_path ! k) (?poss ! (best_path ! (k + 1)))
            = Inr (Some item)"
      by (simp add: hop_item_def)
    with first len show "pick_giveable preferences (best_path ! k) (?poss ! (best_path ! (k + 1)))
                = Inr (Some (?items ! k)) \<and>
              ?items ! k < m \<and> allocation ! (?items ! k) = best_path ! (k + 1) \<and>
              preferences ! (best_path ! k) ! (?items ! k) \<and>
              (\<forall>j < ?items ! k. allocation ! j = best_path ! (k + 1) \<longrightarrow>
                 \<not> preferences ! (best_path ! k) ! j)"
      unfolding nth by simp
  qed
  have "length ?items = length best_path - 1" by simp
  with poss pick each show ?thesis by blast
qed

theorem pick_items_one_item_per_hop_witness:
  "valid_preferences 3 3 [[True, True, False], [False, True, True], [False, False, True]] \<and>
   valid_allocation 3 3 [0, 1, 2] \<and>
   envy_graph 3 3 [[True, True, False], [False, True, True], [False, False, True]] [0, 1, 2]
     = Inr [Adj [1], Adj [2], Adj []] \<and>
   solve_APSP 3 [Adj [1], Adj [2], Adj []]
     = Inr [[[], [0, 1], [0, 1, 2]], [[], [], [1, 2]], [[], [], []]] \<and>
   [[[], [0, 1], [0, 1, 2]], [[], [], [1, 2]], [[], [], []]] ! 0 ! 2 = [0, 1, 2::nat] \<and>
   pick_items [0, 1, 2] [0, 1, 2] [[0], [1], [2]]
     [[True, True, False], [False, True, True], [False, False, True]] = Inr [1, 2] \<and>
   (\<exists>possessions items.
      find_possession 3 [0, 1, 2] = Inr possessions \<and>
      pick_items [0, 1, 2] [0, 1, 2] possessions
        [[True, True, False], [False, True, True], [False, False, True]] = Inr items \<and>
      length items = 2)"
proof -
  let ?P = "[[True, True, False], [False, True, True], [False, False, True]]"
  let ?G = "[Adj [1], Adj [2], Adj []]"
  let ?T = "[[[], [0, 1], [0, 1, 2]], [[], [], [1, 2]], [[], [], []]] :: nat list list list"
  have h1: "valid_preferences 3 3 ?P"
    by (simp add: valid_preferences_def)
  have h2: "valid_allocation 3 3 [0, 1, 2]"
    by (simp add: valid_allocation_def)
  have h3: "envy_graph 3 3 ?P [0, 1, 2] = Inr ?G"
    by (simp add: envy_graph_def calculate_item_envy_relations_def envy_list_def
        envied_agents_def shorten_envy_list_def upt_rec numeral_eq_Suc)
  have h4: "solve_APSP 3 ?G = Inr ?T"
    by (simp add: solve_APSP_def bfs_def bfs_init_def upt_rec numeral_eq_Suc)
  have h5: "?T ! 0 ! 2 = [0, 1, 2]"
    by simp
  have h6: "[0, 1, 2::nat] \<noteq> []"
    by simp
  have direct: "pick_items [0, 1, 2] [0, 1, 2] [[0], [1], [2]] ?P = Inr [1, 2]"
    by (simp add: pick_items_def upt_rec numeral_eq_Suc)
  have two: "length [0, 1, 2::nat] - 1 = 2"
    by simp
  from pick_items_one_item_per_hop [OF h1 h2 h3 h4 _ _ h5 h6]
  have "\<exists>possessions items.
      find_possession 3 [0, 1, 2] = Inr possessions \<and>
      pick_items [0, 1, 2] [0, 1, 2] possessions ?P = Inr items \<and>
      length items = length [0, 1, 2::nat] - 1"
    by auto
  then have "\<exists>possessions items.
      find_possession 3 [0, 1, 2] = Inr possessions \<and>
      pick_items [0, 1, 2] [0, 1, 2] possessions ?P = Inr items \<and>
      length items = 2"
    unfolding two .
  with h1 h2 h3 h4 h5 direct show ?thesis by blast
qed


section \<open>The chunked welfare on doubles\<close>



lemma powr_less_iff_nonneg:
  assumes "0 \<le> x" and "0 \<le> y" and "0 < a"
  shows "x powr a < y powr a \<longleftrightarrow> x < (y::real)"
proof
  assume "x < y" with assms show "x powr a < y powr a" by (simp add: powr_less_mono2)
next
  assume l: "x powr a < y powr a"
  show "x < y"
  proof (rule ccontr)
    assume "\<not> x < y"
    then have "y \<le> x" by simp
    then have "y powr a \<le> x powr a" using assms by (intro powr_mono2) simp_all
    with l show False by simp
  qed
qed
















end
